theory Spec2Isabelle
  imports Main
begin

section \<open>The patch script \<^verbatim>\<open>patch_script.py\<close>\<close>

text \<open>
  The script reads a text file, splits it into lines on the newline character, performs a
  fixed straight-line sequence of 42 \<^verbatim>\<open>lines.insert(i, text)\<close> calls and 3 assignments
  \<^verbatim>\<open>lines[i] = re.sub(pattern, repl, lines[i])\<close>, joins the lines again and writes the
  result to another file.  Python's exceptions are values of type \<open>error\<close>; a function
  that may raise returns \<open>error + 'a\<close>.  Every index in the source is a non-negative
  literal, so indices are natural numbers.  A \<open>char\<close> stands for one character of a
  Python string; no property below depends on how many characters there are.
\<close>

datatype error = IndexError | FileNotFoundError

subsection \<open>Splitting and joining on the newline character\<close>

definition newline :: char where
  "newline = CHR 0x0A"

text \<open>\<^verbatim>\<open>content.split('\n')\<close>: the result always has one more element than there are
  newline characters in the string, so it is never empty.\<close>

fun split_lines :: "string \<Rightarrow> string list" where
  "split_lines [] = [[]]"
| "split_lines (c # cs) =
     (if c = newline then [] # split_lines cs
      else (case split_lines cs of
              [] \<Rightarrow> [[c]]
            | l # ls \<Rightarrow> (c # l) # ls))"

text \<open>\<^verbatim>\<open>"\n".join(lines)\<close>\<close>

fun join_lines :: "string list \<Rightarrow> string" where
  "join_lines [] = []"
| "join_lines [l] = l"
| "join_lines (l # l' # ls) = l @ newline # join_lines (l' # ls)"

subsection \<open>The fragment of \<^verbatim>\<open>re.sub\<close> the script uses\<close>

text \<open>
  The three patterns of the script consist of ordinary characters and the metacharacter
  \<^verbatim>\<open>.\<close>, which matches every character except a newline.  A pattern is parsed into a list
  of atoms; no other metacharacter occurs in the source, so no other is interpreted.
  The replacement strings of the script contain no backslash, so they are inserted as
  they are.
\<close>

datatype atom = Lit char | Dot

definition re_parse :: "string \<Rightarrow> atom list" where
  "re_parse pattern = map (\<lambda>c. if c = CHR ''.'' then Dot else Lit c) pattern"

fun atom_matches :: "atom \<Rightarrow> char \<Rightarrow> bool" where
  "atom_matches (Lit a) c = (a = c)"
| "atom_matches Dot c = (c \<noteq> newline)"

text \<open>Match the atoms at the start of the string; the result is the rest of the string
  behind the match.\<close>

fun match_here :: "atom list \<Rightarrow> string \<Rightarrow> string option" where
  "match_here [] s = Some s"
| "match_here (a # as) [] = None"
| "match_here (a # as) (c # cs) = (if atom_matches a c then match_here as cs else None)"

lemma match_here_length:
  "match_here p s = Some rest \<Longrightarrow> length rest + length p = length s"
  by (induction p s rule: match_here.induct) (auto split: if_splits)

text \<open>
  \<^verbatim>\<open>re.sub\<close> scans from left to right; where the pattern matches, the replacement is
  emitted and the scan goes on behind the match, otherwise one character is copied.
  An empty pattern matches the empty string at every position.
\<close>

function re_sub_atoms :: "atom list \<Rightarrow> string \<Rightarrow> string \<Rightarrow> string" where
  "re_sub_atoms p repl [] = (if p = [] then repl else [])"
| "re_sub_atoms p repl (c # cs) =
     (case match_here p (c # cs) of
        None \<Rightarrow> c # re_sub_atoms p repl cs
      | Some rest \<Rightarrow>
          if p = [] then repl @ c # re_sub_atoms p repl cs
          else repl @ re_sub_atoms p repl rest)"
  by pat_completeness auto
termination
proof (relation "measure (\<lambda>(p, repl, s). length s)")
  show "wf (measure (\<lambda>(p, repl, s). length s))" by simp
next
  fix p :: "atom list" and repl :: string and c :: char and cs :: string
  show "((p, repl, cs), (p, repl, c # cs)) \<in> measure (\<lambda>(p, repl, s). length s)"
    by simp
next
  fix p :: "atom list" and repl :: string and c cs rest
  assume "match_here p (c # cs) = Some rest"
  then show "((p, repl, cs), (p, repl, c # cs)) \<in> measure (\<lambda>(p, repl, s). length s)"
    by simp
next
  fix p :: "atom list" and repl :: string and c cs rest
  assume m: "match_here p (c # cs) = Some rest" and ne: "p \<noteq> []"
  from match_here_length [OF m] ne have "length rest < length (c # cs)"
    by (cases p) auto
  then show "((p, repl, rest), (p, repl, c # cs)) \<in> measure (\<lambda>(p, repl, s). length s)"
    by simp
qed

definition re_sub :: "string \<Rightarrow> string \<Rightarrow> string \<Rightarrow> string" where
  "re_sub pattern repl s = re_sub_atoms (re_parse pattern) repl s"

subsection \<open>List operations\<close>

text \<open>\<^verbatim>\<open>lines.insert(i, x)\<close> never raises: an index beyond the end of the list appends.\<close>

definition list_insert :: "nat \<Rightarrow> 'a \<Rightarrow> 'a list \<Rightarrow> 'a list" where
  "list_insert i x xs = take i xs @ x # drop i xs"

text \<open>\<^verbatim>\<open>lines[i]\<close> and \<^verbatim>\<open>lines[i] = v\<close> raise \<^verbatim>\<open>IndexError\<close> when \<open>i\<close> is not
  below the length of the list.\<close>

definition list_getitem :: "'a list \<Rightarrow> nat \<Rightarrow> error + 'a" where
  "list_getitem xs i = (if i < length xs then Inr (xs ! i) else Inl IndexError)"

definition list_setitem :: "'a list \<Rightarrow> nat \<Rightarrow> 'a \<Rightarrow> error + 'a list" where
  "list_setitem xs i v = (if i < length xs then Inr (xs[i := v]) else Inl IndexError)"

subsection \<open>Edit operations\<close>

text \<open>
  One statement of the body of \<^verbatim>\<open>apply_changes\<close> is either
  \<^verbatim>\<open>lines.insert(i, text)\<close> or \<^verbatim>\<open>lines[i] = re.sub(pattern, repl, lines[i])\<close>.
  In the second, the right-hand side is evaluated first, so the read raises before the
  write is attempted.
\<close>

datatype op = Insert nat string | Replace nat string string

fun apply_op :: "op \<Rightarrow> string list \<Rightarrow> error + string list" where
  "apply_op (Insert i text) lines = Inr (list_insert i text lines)"
| "apply_op (Replace i pattern repl) lines =
     (case list_getitem lines i of
        Inl e \<Rightarrow> Inl e
      | Inr l \<Rightarrow> list_setitem lines i (re_sub pattern repl l))"

text \<open>The statements run in order; the first exception ends the run.\<close>

fun apply_ops :: "op list \<Rightarrow> string list \<Rightarrow> error + string list" where
  "apply_ops [] lines = Inr lines"
| "apply_ops (x # xs) lines =
     (case apply_op x lines of
        Inl e \<Rightarrow> Inl e
      | Inr lines' \<Rightarrow> apply_ops xs lines')"

subsection \<open>The function \<^verbatim>\<open>apply_changes\<close> and the script around it\<close>

text \<open>The statements of the body of \<^verbatim>\<open>apply_changes\<close>, in the order of the source.\<close>

definition changes :: "op list" where
  \<open>changes =
    [Insert 4824 ''# Stage 0: Initial Points from GPX'',
     Replace 4848 ''perl-00-original.txt'' ''perl-00-initial-points.txt'',
     Insert 4850 ''# Stage 1: Remove Duplicate Points'',
     Insert 4854 ''# Stage 2: Repeat Track'',
     Insert 4890 ''# Stage 3: Crop Points'',
     Insert 4950 ''# Stage 4: Fix Zig-Zags'',
     Insert 4955 ''# Stage 5: Adjust Altitudes'',
     Insert 4975 ''# Stage 6: Reverse Course'',
     Insert 4982 ''# Stage 7: Crop Corners'',
     Insert 5008 ''# Stage 8: Auto-Straighten'',
     Insert 5050 ''# Stage 9: Snap Repeated Points (Pass 1)'',
     Insert 5063 ''# Stage 10: Add Corner Splines'',
     Replace 5068 ''perl-10-after-splines.txt'' ''perl-10-splines-added.txt'',
     Insert 5069 ''# Stage 11: Add Corner Arc Fits'',
     Replace 5074 ''perl-11-after-arcfit.txt'' ''perl-11-arcfit-added.txt'',
     Insert 5078 ''# Stage 12: Auto-Spacing at Corners'',
     Insert 5090 ''# Stage 13: Point Interpolation'',
     Insert 5097 ''    dumpPoints($points, "perl-13-interpolated.txt");'',
     Insert 5099 ''# Stage 14: Process Straight Sections'',
     Insert 5104 ''    dumpPoints($points, "perl-14-straights-processed.txt");'',
     Insert 5105 ''# Stage 15: Process Circular Fits'',
     Insert 5110 ''    dumpPoints($points, "perl-15-circles-processed.txt");'',
     Insert 5111 ''# Stage 16: Snap Repeated Points (Pass 2)'',
     Insert 5123 ''    dumpPoints($points, "perl-16-snapped-pass2.txt");'',
     Insert 5220 ''# Stage 17: Add Corner Splines (Post-smoothing)'',
     Insert 5224 ''    dumpPoints($points, "perl-17-splines-added-post-smoothing.txt");'',
     Insert 5225 ''# Stage 18: Add Corner Arc Fits (Post-smoothing)'',
     Insert 5229 ''    dumpPoints($points, "perl-18-arcfit-added-post-smoothing.txt");'',
     Insert 5230 ''# Stage 19: Flatten Sections'',
     Insert 5253 ''# Stage 20: Fix Crossings'',
     Insert 5406 ''# Stage 21: Auto-Segments'',
     Insert 5458 ''# Stage 22: Final Crop'',
     Insert 5464 ''    dumpPoints($points, "perl-22-final-crop.txt");'',
     Insert 5465 ''# Stage 23: Prune Points'',
     Insert 5530 ''# Stage 24: Apply Lane Shift'',
     Insert 5566 ''    dumpPoints($points, "perl-24-lane-shift-applied.txt");'',
     Insert 5567 ''# Stage 25: Add Return Points (Out-and-back)'',
     Insert 5572 ''    dumpPoints($points, "perl-25-return-points-added.txt");'',
     Insert 5573 ''# Stage 26: Crop for extendBack'',
     Insert 5575 ''  dumpPoints($points, "perl-26-cropped-for-extend-back.txt")'',
     Insert 5577 ''# Stage 27: Add U-Turn Loops'',
     Insert 5648 ''# Stage 28: Apply Minimum Radius'',
     Insert 5712 ''# Stage 29: Shift Start/Finish'',
     Insert 5767 ''# Stage 30: Copy Start Point to End'',
     Insert 5776 ''    dumpPoints($points, "perl-30-start-point-copied.txt");'']\<close>

text \<open>
  The frame of \<^verbatim>\<open>apply_changes\<close>: split the content, run the statements on the list
  of lines, join the lines.  An exception raised by a statement leaves the function, and
  nothing is returned.
\<close>

definition apply_edits :: "op list \<Rightarrow> string \<Rightarrow> error + string" where
  "apply_edits xs content =
     (case apply_ops xs (split_lines content) of
        Inl e \<Rightarrow> Inl e
      | Inr lines \<Rightarrow> Inr (join_lines lines))"

definition apply_changes :: "string \<Rightarrow> error + string" where
  "apply_changes content = apply_edits changes content"

text \<open>
  The script itself: the file system is a map from paths to contents, and a run gives
  the exception that ended it, if any, and the file system it leaves.  Reading a path
  that does not exist raises; the output file is opened only after \<^verbatim>\<open>apply_changes\<close>
  has returned.
\<close>

type_synonym filesystem = "string \<rightharpoonup> string"

definition main :: "filesystem \<Rightarrow> error option \<times> filesystem" where
  "main fs =
     (case fs ''processGPX'' of
        None \<Rightarrow> (Some FileNotFoundError, fs)
      | Some content \<Rightarrow>
          (case apply_changes content of
             Inl e \<Rightarrow> (Some e, fs)
           | Inr new_content \<Rightarrow> (None, fs(''processGPX_new'' \<mapsto> new_content))))"

subsection \<open>Notions used to state the properties\<close>

text \<open>The number of \<open>Insert\<close> statements in a list of statements.\<close>

fun count_inserts :: "op list \<Rightarrow> nat" where
  "count_inserts [] = 0"
| "count_inserts (Insert i text # xs) = Suc (count_inserts xs)"
| "count_inserts (Replace i pattern repl # xs) = count_inserts xs"

text \<open>
  Whether every \<open>Replace\<close> of the list finds its index inside the list when it runs, for
  a list that has \<open>n\<close> lines at the start.
\<close>

fun indices_fit :: "op list \<Rightarrow> nat \<Rightarrow> bool" where
  "indices_fit [] n = True"
| "indices_fit (Insert i text # xs) n = indices_fit xs (Suc n)"
| "indices_fit (Replace i pattern repl # xs) n = (i < n \<and> indices_fit xs n)"

text \<open>
  The line that stands at position \<open>p\<close> before the statements run, followed through
  them: an insertion at or before its current position moves it down by one; a
  \<open>Replace\<close> at its current position rewrites it.  \<open>inserts_before\<close> counts the
  insertions that moved it, \<open>targeted\<close> says whether some \<open>Replace\<close> addressed it, and
  \<open>track\<close> gives its final position and text.
\<close>

fun inserts_before :: "op list \<Rightarrow> nat \<Rightarrow> nat" where
  "inserts_before [] p = 0"
| "inserts_before (Insert i text # xs) p =
     (if i \<le> p then Suc (inserts_before xs (Suc p)) else inserts_before xs p)"
| "inserts_before (Replace i pattern repl # xs) p = inserts_before xs p"

fun targeted :: "op list \<Rightarrow> nat \<Rightarrow> bool" where
  "targeted [] p = False"
| "targeted (Insert i text # xs) p = targeted xs (if i \<le> p then Suc p else p)"
| "targeted (Replace i pattern repl # xs) p = (i = p \<or> targeted xs p)"

fun track :: "op list \<Rightarrow> nat \<Rightarrow> string \<Rightarrow> nat \<times> string" where
  "track [] p l = (p, l)"
| "track (Insert i text # xs) p l = track xs (if i \<le> p then Suc p else p) l"
| "track (Replace i pattern repl # xs) p l =
     track xs p (if i = p then re_sub pattern repl l else l)"

text \<open>
  The indices of the insertions in the coordinates of the original document: the
  insertion that has \<open>k\<close> insertions in front of it and index \<open>i\<close> puts its line in
  front of the original line \<open>i - k\<close>, when all \<open>k\<close> insertions took place further up.
\<close>

fun insert_points :: "op list \<Rightarrow> nat \<Rightarrow> nat list" where
  "insert_points [] k = []"
| "insert_points (Insert i text # xs) k = (i - k) # insert_points xs (Suc k)"
| "insert_points (Replace i pattern repl # xs) k = insert_points xs k"

text \<open>The text a statement brings into the document.\<close>

fun op_text :: "op \<Rightarrow> string" where
  "op_text (Insert i text) = text"
| "op_text (Replace i pattern repl) = repl"

text \<open>
  The positions of a line at which a pattern matches, in ascending order, counted from
  \<open>i\<close> for the first character.
\<close>

fun occurrences_from :: "atom list \<Rightarrow> nat \<Rightarrow> string \<Rightarrow> nat list" where
  "occurrences_from p i [] = (if match_here p [] = None then [] else [i])"
| "occurrences_from p i (c # cs) =
     (if match_here p (c # cs) = None then [] else [i]) @ occurrences_from p (Suc i) cs"

definition occurrences :: "atom list \<Rightarrow> string \<Rightarrow> nat list" where
  "occurrences p s = occurrences_from p 0 s"

text \<open>
  The line with every listed occurrence replaced: \<open>n\<close> is the length of an occurrence,
  \<open>i\<close> the position of the first character of \<open>s\<close> in the line.  The text in front of
  each listed position is kept, the \<open>n\<close> characters from it on give way to the
  replacement, and so for every listed position: the result holds the replacement as
  many times as the list is long.  The occurrences are apart when each starts behind the
  end of the one before.
\<close>

fun replace_each :: "nat \<Rightarrow> string \<Rightarrow> nat list \<Rightarrow> nat \<Rightarrow> string \<Rightarrow> string" where
  "replace_each n repl [] i s = s"
| "replace_each n repl (j # js) i s =
     take (j - i) s @ repl @ replace_each n repl js (j + n) (drop (j - i + n) s)"

fun spaced :: "nat \<Rightarrow> nat list \<Rightarrow> bool" where
  "spaced n [] = True"
| "spaced n [j] = True"
| "spaced n (j # j' # js) = (j + n \<le> j' \<and> spaced n (j' # js))"

text \<open>
  Two atoms overlap when some character matches both; a pattern is unbordered when no
  string matches it at two positions less than its length apart.
\<close>

fun atoms_overlap :: "atom \<Rightarrow> atom \<Rightarrow> bool" where
  "atoms_overlap (Lit a) (Lit b) = (a = b)"
| "atoms_overlap (Lit a) Dot = (a \<noteq> newline)"
| "atoms_overlap Dot (Lit b) = (b \<noteq> newline)"
| "atoms_overlap Dot Dot = True"

definition overlaps_at :: "atom list \<Rightarrow> nat \<Rightarrow> bool" where
  "overlaps_at p k = list_all (\<lambda>(a, b). atoms_overlap a b) (zip (drop k p) p)"

definition unbordered :: "atom list \<Rightarrow> bool" where
  "unbordered p = list_all (\<lambda>k. \<not> overlaps_at p k) [1..<length p]"

text \<open>Whether the string \<open>lit\<close>, taken character by character, stands somewhere in \<open>s\<close>.\<close>

definition contains_literal :: "string \<Rightarrow> string \<Rightarrow> bool" where
  "contains_literal lit s = (occurrences (map Lit lit) s \<noteq> [])"

section \<open>Basic facts\<close>

subsection \<open>Splitting and joining\<close>

lemma split_lines_not_Nil: "split_lines s \<noteq> []"
  by (induction s) (auto split: list.splits)

lemma join_split: "join_lines (split_lines s) = s"
proof (induction s)
  case Nil
  show ?case by simp
next
  case (Cons c cs)
  show ?case
  proof (cases "c = newline")
    case True
    obtain l ls where e: "split_lines cs = l # ls"
      using split_lines_not_Nil [of cs] by (cases "split_lines cs") auto
    with Cons True show ?thesis by simp
  next
    case False
    obtain l ls where e: "split_lines cs = l # ls"
      using split_lines_not_Nil [of cs] by (cases "split_lines cs") auto
    with Cons False show ?thesis by (cases ls) auto
  qed
qed

lemma length_split_lines: "length (split_lines s) = Suc (length (filter (\<lambda>c. c = newline) s))"
  by (induction s) (auto split: list.splits simp: split_lines_not_Nil)

lemma split_lines_clean: "newline \<notin> set l \<Longrightarrow> split_lines l = [l]"
  by (induction l) auto

lemma split_lines_append_newline:
  "newline \<notin> set l \<Longrightarrow> split_lines (l @ newline # s) = l # split_lines s"
  by (induction l) auto

lemma split_join:
  "ls \<noteq> [] \<Longrightarrow> \<forall>l\<in>set ls. newline \<notin> set l \<Longrightarrow> split_lines (join_lines ls) = ls"
  by (induction ls rule: join_lines.induct)
     (auto simp: split_lines_clean split_lines_append_newline)

subsection \<open>Insertion, replacement and runs of statements\<close>

lemma length_list_insert: "length (list_insert i x xs) = Suc (length xs)"
  by (simp add: list_insert_def)

lemma list_insert_nth_at: "i \<le> length xs \<Longrightarrow> list_insert i x xs ! i = x"
  by (simp add: list_insert_def nth_append)

lemma list_insert_nth_below: "p < i \<Longrightarrow> p < length xs \<Longrightarrow> list_insert i x xs ! p = xs ! p"
  by (simp add: list_insert_def nth_append)

lemma list_insert_nth_above: "i \<le> p \<Longrightarrow> p < length xs \<Longrightarrow> list_insert i x xs ! Suc p = xs ! p"
  by (simp add: list_insert_def nth_append Suc_diff_le)

lemma list_insert_beyond: "length xs \<le> i \<Longrightarrow> list_insert i x xs = xs @ [x]"
  by (simp add: list_insert_def)

lemma apply_op_Replace:
  "apply_op (Replace i pattern repl) ls =
     (if i < length ls then Inr (ls[i := re_sub pattern repl (ls ! i)]) else Inl IndexError)"
  by (simp add: list_getitem_def list_setitem_def)

lemma apply_op_length:
  "apply_op x ls = Inr ls' \<Longrightarrow> length ls' = length ls + count_inserts [x]"
  by (cases x) (auto simp: length_list_insert list_getitem_def list_setitem_def split: if_splits)

lemma apply_ops_length:
  "apply_ops xs ls = Inr ls' \<Longrightarrow> length ls' = length ls + count_inserts xs"
proof (induction xs arbitrary: ls)
  case Nil
  then show ?case by simp
next
  case (Cons x xs)
  then obtain m where m: "apply_op x ls = Inr m" and r: "apply_ops xs m = Inr ls'"
    by (auto split: sum.splits)
  from Cons.IH [OF r] apply_op_length [OF m] show ?case
    by (cases x) auto
qed

lemma apply_ops_error: "apply_ops xs ls = Inl e \<Longrightarrow> e = IndexError"
proof (induction xs arbitrary: ls)
  case Nil
  then show ?case by simp
next
  case (Cons x xs)
  show ?case
  proof (cases "apply_op x ls")
    case (Inl e')
    with Cons.prems have "e = e'" by simp
    with Inl show ?thesis
      by (cases x) (auto simp: list_getitem_def list_setitem_def split: if_splits)
  next
    case (Inr m)
    with Cons show ?thesis by simp
  qed
qed

lemma apply_ops_succeeds_iff:
  "(\<exists>ls'. apply_ops xs ls = Inr ls') \<longleftrightarrow> indices_fit xs (length ls)"
proof (induction xs arbitrary: ls)
  case Nil
  show ?case by simp
next
  case (Cons x xs)
  show ?case
  proof (cases x)
    case (Insert i c)
    with Cons [of "list_insert i c ls"] show ?thesis
      by (simp add: length_list_insert)
  next
    case (Replace i pattern repl)
    with Cons [of "ls[i := re_sub pattern repl (ls ! i)]"] show ?thesis
      by (simp add: list_getitem_def list_setitem_def)
  qed
qed

lemma apply_ops_append:
  "apply_ops (xs @ ys) ls =
     (case apply_ops xs ls of Inl e \<Rightarrow> Inl e | Inr m \<Rightarrow> apply_ops ys m)"
  by (induction xs arbitrary: ls) (auto split: sum.splits)

lemma track_correct:
  "apply_ops xs ls = Inr ls' \<Longrightarrow> p < length ls \<Longrightarrow>
     fst (track xs p (ls ! p)) < length ls' \<and> ls' ! fst (track xs p (ls ! p)) = snd (track xs p (ls ! p))"
proof (induction xs arbitrary: ls p)
  case Nil
  then show ?case by simp
next
  case (Cons x xs)
  show ?case
  proof (cases x)
    case (Insert i c)
    let ?m = "list_insert i c ls" and ?q = "if i \<le> p then Suc p else p"
    from Cons.prems Insert have r: "apply_ops xs ?m = Inr ls'" by simp
    from Cons.prems have q: "?q < length ?m" by (simp add: length_list_insert)
    from Cons.prems have e: "?m ! ?q = ls ! p"
      by (simp add: list_insert_nth_above list_insert_nth_below)
    from Cons.IH [OF r q] e Insert show ?thesis by simp
  next
    case (Replace i pattern repl)
    let ?m = "ls[i := re_sub pattern repl (ls ! i)]"
    from Cons.prems Replace have i: "i < length ls" and r: "apply_ops xs ?m = Inr ls'"
      by (auto simp: list_getitem_def list_setitem_def split: if_splits)
    from Cons.prems have q: "p < length ?m" by simp
    from i Cons.prems have e: "?m ! p = (if i = p then re_sub pattern repl (ls ! p) else ls ! p)"
      by (simp add: nth_list_update)
    from Cons.IH [OF r q] e Replace show ?thesis by simp
  qed
qed

lemma track_fst: "fst (track xs p l) = p + inserts_before xs p"
  by (induction xs p l rule: track.induct) auto

lemma track_snd: "\<not> targeted xs p \<Longrightarrow> snd (track xs p l) = l"
  by (induction xs p l rule: track.induct) auto

subsection \<open>How far a line is moved\<close>

text \<open>
  Where the insertion points ascend, a line is moved by exactly the insertions whose
  point is at or before its original position.
\<close>

lemma inserts_before_none:
  "\<forall>t\<in>set (insert_points xs k'). p < t \<Longrightarrow> k \<le> k' \<Longrightarrow> inserts_before xs (p + k) = 0"
proof (induction xs k' rule: insert_points.induct)
  case (1 k')
  show ?case by simp
next
  case (2 i c xs k')
  from "2.prems" have "p + k < i" by auto
  moreover from "2.prems" "2.IH" have "inserts_before xs (p + k) = 0" by simp
  ultimately show ?case by simp
next
  case (3 i pattern repl xs k')
  then show ?case by simp
qed

lemma inserts_before_sorted:
  "sorted (insert_points xs k) \<Longrightarrow>
     inserts_before xs (p + k) = length (filter (\<lambda>t. t \<le> p) (insert_points xs k))"
proof (induction xs k rule: insert_points.induct)
  case (1 k)
  show ?case by simp
next
  case (2 i c xs k)
  show ?case
  proof (cases "i \<le> p + k")
    case True
    with "2.prems" "2.IH" show ?thesis by simp
  next
    case False
    with "2.prems" have a: "\<forall>t\<in>set (insert_points xs (Suc k)). p < t" by auto
    then have "inserts_before xs (p + k) = 0"
      by (rule inserts_before_none) simp
    moreover from a have "filter (\<lambda>t. t \<le> p) (insert_points xs (Suc k)) = []"
      by (auto simp: filter_empty_conv)
    ultimately show ?thesis using False by simp
  qed
next
  case (3 i pattern repl xs k)
  then show ?case by simp
qed

lemma insert_points_changes:
  "insert_points changes 0 =
    [4824, 4849, 4852, 4887, 4946, 4950, 4969, 4975, 5000, 5041, 5053, 5058, 5066, 5077,
     5083, 5084, 5088, 5088, 5092, 5092, 5103, 5199, 5202, 5202, 5205, 5205, 5227, 5379,
     5430, 5435, 5435, 5499, 5534, 5534, 5538, 5538, 5539, 5540, 5610, 5673, 5727, 5735]"
  by (simp add: changes_def)

lemma inserts_before_changes:
  "inserts_before changes p = length (filter (\<lambda>t. t \<le> p) (insert_points changes 0))"
  using inserts_before_sorted [of changes 0 p] by (simp add: insert_points_changes)

subsection \<open>Which original lines a \<open>Replace\<close> of the script addresses\<close>

text \<open>
  The indices of the script grow, so a line is moved by a prefix of the insertions; a
  case distinction over the intervals between the points where one more insertion
  takes effect decides every comparison.
\<close>

lemma interval_step:
  fixes p :: nat
  assumes "p < a \<Longrightarrow> Q" and "a \<le> p \<Longrightarrow> p < b \<Longrightarrow> Q"
  shows "p < b \<Longrightarrow> Q"
  using assms by (cases "p < a") simp_all

lemma interval_last:
  fixes p :: nat
  assumes "p < a \<Longrightarrow> Q" and "a \<le> p \<Longrightarrow> Q"
  shows Q
  using assms by (cases "p < a") simp_all

lemma targeted_shape:
  "targeted
     [Insert 4824 t0, Replace 4848 a0 b0, Insert 4850 t1, Insert 4854 t2, Insert 4890 t3,
      Insert 4950 t4, Insert 4955 t5, Insert 4975 t6, Insert 4982 t7, Insert 5008 t8,
      Insert 5050 t9, Insert 5063 t10, Replace 5068 a1 b1, Insert 5069 t11,
      Replace 5074 a2 b2] p
   \<longleftrightarrow> p = 4847 \<or> p = 5057 \<or> p = 5062"
proof -
  define Q where "Q \<longleftrightarrow>
    (targeted
     [Insert 4824 t0, Replace 4848 a0 b0, Insert 4850 t1, Insert 4854 t2, Insert 4890 t3,
      Insert 4950 t4, Insert 4955 t5, Insert 4975 t6, Insert 4982 t7, Insert 5008 t8,
      Insert 5050 t9, Insert 5063 t10, Replace 5068 a1 b1, Insert 5069 t11,
      Replace 5074 a2 b2] p
     \<longleftrightarrow> p = 4847 \<or> p = 5057 \<or> p = 5062)"
  have below: "p < 4824 \<Longrightarrow> Q"
    by (simp add: Q_def)
  have i1: "4824 \<le> p \<Longrightarrow> p < 4849 \<Longrightarrow> Q"
    by (simp add: Q_def)
  have b1: "p < 4849 \<Longrightarrow> Q"
    using below i1 by (rule interval_step)
  have i2: "4849 \<le> p \<Longrightarrow> p < 4852 \<Longrightarrow> Q"
    by (simp add: Q_def)
  have b2: "p < 4852 \<Longrightarrow> Q"
    using b1 i2 by (rule interval_step)
  have i3: "4852 \<le> p \<Longrightarrow> p < 4887 \<Longrightarrow> Q"
    by (simp add: Q_def)
  have b3: "p < 4887 \<Longrightarrow> Q"
    using b2 i3 by (rule interval_step)
  have i4: "4887 \<le> p \<Longrightarrow> p < 4946 \<Longrightarrow> Q"
    by (simp add: Q_def)
  have b4: "p < 4946 \<Longrightarrow> Q"
    using b3 i4 by (rule interval_step)
  have i5: "4946 \<le> p \<Longrightarrow> p < 4950 \<Longrightarrow> Q"
    by (simp add: Q_def)
  have b5: "p < 4950 \<Longrightarrow> Q"
    using b4 i5 by (rule interval_step)
  have i6: "4950 \<le> p \<Longrightarrow> p < 4969 \<Longrightarrow> Q"
    by (simp add: Q_def)
  have b6: "p < 4969 \<Longrightarrow> Q"
    using b5 i6 by (rule interval_step)
  have i7: "4969 \<le> p \<Longrightarrow> p < 4975 \<Longrightarrow> Q"
    by (simp add: Q_def)
  have b7: "p < 4975 \<Longrightarrow> Q"
    using b6 i7 by (rule interval_step)
  have i8: "4975 \<le> p \<Longrightarrow> p < 5000 \<Longrightarrow> Q"
    by (simp add: Q_def)
  have b8: "p < 5000 \<Longrightarrow> Q"
    using b7 i8 by (rule interval_step)
  have i9: "5000 \<le> p \<Longrightarrow> p < 5041 \<Longrightarrow> Q"
    by (simp add: Q_def)
  have b9: "p < 5041 \<Longrightarrow> Q"
    using b8 i9 by (rule interval_step)
  have i10: "5041 \<le> p \<Longrightarrow> p < 5053 \<Longrightarrow> Q"
    by (simp add: Q_def)
  have b10: "p < 5053 \<Longrightarrow> Q"
    using b9 i10 by (rule interval_step)
  have i11: "5053 \<le> p \<Longrightarrow> p < 5058 \<Longrightarrow> Q"
    by (simp add: Q_def)
  have b11: "p < 5058 \<Longrightarrow> Q"
    using b10 i11 by (rule interval_step)
  have above: "5058 \<le> p \<Longrightarrow> Q"
    by (simp add: Q_def)
  from b11 above have Q
    by (rule interval_last)
  then show ?thesis
    by (simp only: Q_def)
qed

lemma targeted_append:
  "targeted (xs @ ys) p \<longleftrightarrow> targeted xs p \<or> targeted ys (p + inserts_before xs p)"
  by (induction xs p rule: targeted.induct) auto

lemma targeted_inserts_only: "count_inserts xs = length xs \<Longrightarrow> \<not> targeted xs p"
proof (induction xs p rule: targeted.induct)
  case (1 p)
  show ?case by simp
next
  case (2 i c xs p)
  then show ?case by simp
next
  case (3 i pattern repl xs p)
  have "count_inserts xs \<le> length xs"
    by (induction xs rule: count_inserts.induct) auto
  with 3 show ?case by simp
qed

lemma first_stages:
  \<open>take 15 changes =
    [Insert 4824 ''# Stage 0: Initial Points from GPX'',
     Replace 4848 ''perl-00-original.txt'' ''perl-00-initial-points.txt'',
     Insert 4850 ''# Stage 1: Remove Duplicate Points'',
     Insert 4854 ''# Stage 2: Repeat Track'',
     Insert 4890 ''# Stage 3: Crop Points'',
     Insert 4950 ''# Stage 4: Fix Zig-Zags'',
     Insert 4955 ''# Stage 5: Adjust Altitudes'',
     Insert 4975 ''# Stage 6: Reverse Course'',
     Insert 4982 ''# Stage 7: Crop Corners'',
     Insert 5008 ''# Stage 8: Auto-Straighten'',
     Insert 5050 ''# Stage 9: Snap Repeated Points (Pass 1)'',
     Insert 5063 ''# Stage 10: Add Corner Splines'',
     Replace 5068 ''perl-10-after-splines.txt'' ''perl-10-splines-added.txt'',
     Insert 5069 ''# Stage 11: Add Corner Arc Fits'',
     Replace 5074 ''perl-11-after-arcfit.txt'' ''perl-11-arcfit-added.txt'']\<close>
  by (simp add: changes_def)

lemma targeted_changes: "targeted changes p \<longleftrightarrow> p = 4847 \<or> p = 5057 \<or> p = 5062"
proof -
  have "\<not> targeted (drop 15 changes) q" for q
    by (rule targeted_inserts_only) (simp add: changes_def)
  moreover have "targeted (take 15 changes) p \<longleftrightarrow> p = 4847 \<or> p = 5057 \<or> p = 5062"
    unfolding first_stages by (rule targeted_shape)
  ultimately show ?thesis
    using targeted_append [of "take 15 changes" "drop 15 changes" p] by simp
qed

subsection \<open>Lines never contain a newline\<close>

lemma split_lines_no_newline: "l \<in> set (split_lines s) \<Longrightarrow> newline \<notin> set l"
proof (induction s arbitrary: l)
  case Nil
  then show ?case by simp
next
  case (Cons c cs)
  obtain h t where e: "split_lines cs = h # t"
    using split_lines_not_Nil [of cs] by (cases "split_lines cs") auto
  from Cons.IH [of h] e have h: "newline \<notin> set h" by simp
  from Cons.IH e have t: "\<And>x. x \<in> set t \<Longrightarrow> newline \<notin> set x" by simp
  from Cons.prems e h t Cons.IH show ?case
    by (auto split: if_splits)
qed

lemma match_here_drop: "match_here p s = Some rest \<Longrightarrow> rest = drop (length p) s"
  by (induction p s rule: match_here.induct) (auto split: if_splits)

lemma re_sub_atoms_chars: "set (re_sub_atoms p repl s) \<subseteq> set repl \<union> set s"
proof (induction p repl s rule: re_sub_atoms.induct)
  case (1 p repl)
  show ?case by auto
next
  case (2 p repl c cs)
  show ?case
  proof (cases "match_here p (c # cs)")
    case None
    with 2 show ?thesis by auto
  next
    case (Some rest)
    then have "set rest \<subseteq> set (c # cs)"
      using match_here_drop [OF Some] by (metis set_drop_subset)
    with 2 Some show ?thesis by (cases "p = []") auto
  qed
qed

lemma re_sub_no_newline:
  "newline \<notin> set repl \<Longrightarrow> newline \<notin> set s \<Longrightarrow> newline \<notin> set (re_sub pattern repl s)"
  using re_sub_atoms_chars [of "re_parse pattern" repl s] by (auto simp: re_sub_def)

lemma apply_op_no_newline:
  assumes "apply_op x ls = Inr ls'" and "newline \<notin> set (op_text x)"
    and "\<forall>l\<in>set ls. newline \<notin> set l"
  shows "\<forall>l\<in>set ls'. newline \<notin> set l"
proof (cases x)
  case (Insert i c)
  with assms(1) have "set ls' \<subseteq> insert c (set ls)"
    using set_take_subset [of i ls] set_drop_subset [of i ls]
    by (auto simp: list_insert_def)
  with assms(2,3) Insert show ?thesis by auto
next
  case (Replace i pattern repl)
  with assms(1) have i: "i < length ls" and e: "ls' = ls[i := re_sub pattern repl (ls ! i)]"
    by (auto simp: list_getitem_def list_setitem_def split: if_splits)
  from i assms(3) have "newline \<notin> set (ls ! i)" by simp
  with assms(2) Replace have "newline \<notin> set (re_sub pattern repl (ls ! i))"
    by (simp add: re_sub_no_newline)
  with assms(3) e show ?thesis
    using set_update_subset_insert [of ls i "re_sub pattern repl (ls ! i)"] by auto
qed

lemma apply_ops_no_newline:
  "apply_ops xs ls = Inr ls' \<Longrightarrow> \<forall>x\<in>set xs. newline \<notin> set (op_text x) \<Longrightarrow>
     \<forall>l\<in>set ls. newline \<notin> set l \<Longrightarrow> \<forall>l\<in>set ls'. newline \<notin> set l"
proof (induction xs arbitrary: ls)
  case Nil
  then show ?case by simp
next
  case (Cons x xs)
  from Cons.prems(1) obtain m where m: "apply_op x ls = Inr m" and r: "apply_ops xs m = Inr ls'"
    by (auto split: sum.splits)
  from Cons.prems(2) have "newline \<notin> set (op_text x)" by simp
  from apply_op_no_newline [OF m this Cons.prems(3)] have "\<forall>l\<in>set m. newline \<notin> set l" .
  with Cons.IH [OF r] Cons.prems(2) show ?case by simp
qed

lemma changes_no_newline: "\<forall>x\<in>set changes. newline \<notin> set (op_text x)"
  by (simp add: changes_def newline_def)

lemma apply_ops_nonempty: "apply_ops xs ls = Inr ls' \<Longrightarrow> ls \<noteq> [] \<Longrightarrow> ls' \<noteq> []"
  using apply_ops_length [of xs ls ls'] by auto

text \<open>The lines of what \<^verbatim>\<open>apply_changes\<close> returns are the lines the statements leave.\<close>

lemma apply_changes_lines:
  "apply_changes content = Inr out \<longleftrightarrow>
     (\<exists>ls'. apply_ops changes (split_lines content) = Inr ls' \<and> out = join_lines ls')"
  by (auto simp: apply_changes_def apply_edits_def split: sum.splits)

lemma split_lines_result:
  assumes "apply_ops changes (split_lines content) = Inr ls'"
  shows "split_lines (join_lines ls') = ls'"
proof (rule split_join)
  from assms show "ls' \<noteq> []"
    by (rule apply_ops_nonempty) (rule split_lines_not_Nil)
  from assms changes_no_newline show "\<forall>l\<in>set ls'. newline \<notin> set l"
    by (rule apply_ops_no_newline) (simp add: split_lines_no_newline)
qed

lemma count_inserts_changes: "count_inserts changes = 42"
  by (simp add: changes_def)

lemma indices_fit_changes: "indices_fit changes n \<longleftrightarrow> 5063 \<le> n"
  by (simp add: changes_def) arith

lemma apply_changes_succeeds:
  "(\<exists>out. apply_changes content = Inr out) \<longleftrightarrow> 5063 \<le> length (split_lines content)"
  using apply_ops_succeeds_iff [of changes "split_lines content"]
  by (simp add: apply_changes_lines indices_fit_changes)

lemma split_lines_replicate:
  "split_lines (replicate n newline @ s) = replicate n [] @ split_lines s"
  by (induction n) auto

lemma length_split_lines_replicate [simp]:
  "length (split_lines (replicate n newline)) = Suc n"
  by (simp add: length_split_lines)

subsection \<open>When the statements raise\<close>

declare apply_op.simps(2) [simp del]
declare apply_op_Replace [simp]

lemma Replace_succeeds_iff:
  "(\<exists>doc'. apply_op (Replace i pattern repl) doc = Inr doc') \<longleftrightarrow> i < length doc"
  by simp

lemma Replace_fails_iff:
  "apply_op (Replace i pattern repl) doc = Inl IndexError \<longleftrightarrow> length doc \<le> i"
  by auto

lemma apply_changes_fails_iff:
  "apply_changes content = Inl IndexError \<longleftrightarrow> length (split_lines content) < 5063"
proof -
  have "apply_changes content = Inl IndexError \<longleftrightarrow> \<not> (\<exists>out. apply_changes content = Inr out)"
  proof (cases "apply_changes content")
    case (Inl e)
    then have "apply_ops changes (split_lines content) = Inl e"
      by (auto simp: apply_changes_def apply_edits_def split: sum.splits)
    then have "e = IndexError" by (rule apply_ops_error)
    with Inl show ?thesis by simp
  next
    case (Inr out)
    then show ?thesis by simp
  qed
  then show ?thesis
    by (simp add: apply_changes_succeeds not_le)
qed

lemma nth_changes:
  \<open>changes ! Suc 0 = Replace 4848 ''perl-00-original.txt'' ''perl-00-initial-points.txt''\<close>
  \<open>changes ! 12 = Replace 5068 ''perl-10-after-splines.txt'' ''perl-10-splines-added.txt''\<close>
  \<open>changes ! 14 = Replace 5074 ''perl-11-after-arcfit.txt'' ''perl-11-arcfit-added.txt''\<close>
  by (simp_all add: changes_def)

lemma count_inserts_prefixes:
  "count_inserts (take (Suc 0) changes) = 1"
  "count_inserts (take 12 changes) = 11"
  "count_inserts (take 14 changes) = 12"
  by (simp_all add: changes_def)

lemma length_changes: "length changes = 45"
  by (simp add: changes_def)

lemma inserts_before_example: "inserts_before changes 4990 = 8"
  by (simp add: changes_def)

text \<open>
  On an input of 5063 lines the script succeeds, although its sixteenth statement
  inserts at index 5078 into a list that has 5075 lines at that point.
\<close>

lemma script_inserts_beyond_end:
  \<open>\<exists>doc out. apply_ops (take 15 changes) (split_lines (replicate 5062 newline)) = Inr doc \<and>
     length doc = 5075 \<and>
     changes ! 15 = Insert 5078 ''# Stage 12: Auto-Spacing at Corners'' \<and>
     apply_changes (replicate 5062 newline) = Inr out\<close>
proof -
  have "indices_fit (take 15 changes) (length (split_lines (replicate 5062 newline)))"
    by (simp add: first_stages)
  then obtain doc where d: "apply_ops (take 15 changes) (split_lines (replicate 5062 newline)) = Inr doc"
    using apply_ops_succeeds_iff by blast
  from apply_ops_length [OF d] have "length doc = 5075"
    by (simp add: first_stages)
  moreover have "changes ! 15 = Insert 5078 ''# Stage 12: Auto-Spacing at Corners''"
    by (simp add: changes_def)
  moreover obtain out where "apply_changes (replicate 5062 newline) = Inr out"
    using apply_changes_succeeds [of "replicate 5062 newline"] by auto
  ultimately show ?thesis using d by blast
qed

subsection \<open>Substitution in a line\<close>

text \<open>\<open>occurrences\<close> lists exactly the positions at which the pattern matches.\<close>

lemma occurrences_from_iff:
  "j \<in> set (occurrences_from p i s) \<longleftrightarrow>
     (\<exists>k\<le>length s. j = i + k \<and> match_here p (drop k s) \<noteq> None)"
proof (induction s arbitrary: i)
  case Nil
  show ?case by auto
next
  case (Cons c cs)
  have "(\<exists>k\<le>length (c # cs). j = i + k \<and> match_here p (drop k (c # cs)) \<noteq> None) \<longleftrightarrow>
      (j = i \<and> match_here p (c # cs) \<noteq> None) \<or>
      (\<exists>k\<le>length cs. j = Suc i + k \<and> match_here p (drop k cs) \<noteq> None)"
    (is "?l \<longleftrightarrow> ?a \<or> ?b")
  proof
    assume ?l
    then obtain k where k: "k \<le> length (c # cs)" "j = i + k"
      "match_here p (drop k (c # cs)) \<noteq> None" by blast
    show "?a \<or> ?b"
    proof (cases k)
      case 0
      with k show ?thesis by simp
    next
      case (Suc k')
      with k have "k' \<le> length cs \<and> j = Suc i + k' \<and> match_here p (drop k' cs) \<noteq> None"
        by simp
      then show ?thesis by blast
    qed
  next
    assume "?a \<or> ?b"
    then show ?l
    proof
      assume ?a
      then have "0 \<le> length (c # cs) \<and> j = i + 0 \<and> match_here p (drop 0 (c # cs)) \<noteq> None"
        by simp
      then show ?l by blast
    next
      assume ?b
      then obtain k where "k \<le> length cs" "j = Suc i + k" "match_here p (drop k cs) \<noteq> None"
        by blast
      then have "Suc k \<le> length (c # cs) \<and> j = i + Suc k \<and>
          match_here p (drop (Suc k) (c # cs)) \<noteq> None"
        by simp
      then show ?l by blast
    qed
  qed
  with Cons [of "Suc i"] show ?case by auto
qed

lemma occurrences_iff:
  "j \<in> set (occurrences p s) \<longleftrightarrow> j \<le> length s \<and> match_here p (drop j s) \<noteq> None"
  by (auto simp: occurrences_def occurrences_from_iff)

text \<open>
  Two matches of a pattern \<open>k\<close> positions apart force the pattern to overlap itself
  at distance \<open>k\<close>; an unbordered pattern therefore matches nowhere inside one of its
  matches, and the scan of \<^verbatim>\<open>re.sub\<close>, which goes on behind each match, misses
  nothing.
\<close>

lemma match_here_iff:
  "match_here p s \<noteq> None \<longleftrightarrow>
     length p \<le> length s \<and> (\<forall>j<length p. atom_matches (p ! j) (s ! j))"
proof (induction p s rule: match_here.induct)
  case (1 s)
  show ?case by simp
next
  case (2 a as)
  show ?case by simp
next
  case (3 a as c cs)
  have "(\<forall>j<Suc (length as). atom_matches ((a # as) ! j) ((c # cs) ! j)) \<longleftrightarrow>
      atom_matches a c \<and> (\<forall>j<length as. atom_matches (as ! j) (cs ! j))"
    by (auto simp: nth_Cons split: nat.splits)
  with 3 show ?case by auto
qed

lemma atoms_overlap_common: "atom_matches a c \<Longrightarrow> atom_matches b c \<Longrightarrow> atoms_overlap a b"
  by (cases a; cases b) auto

lemma two_matches_overlap:
  assumes "match_here p s \<noteq> None" and "match_here p (drop k s) \<noteq> None"
  shows "overlaps_at p k"
proof -
  from assms(1) have a: "\<forall>j<length p. atom_matches (p ! j) (s ! j)"
    using match_here_iff [of p s] by blast
  from assms(2) have l: "length p \<le> length s - k"
    and b: "\<forall>j<length p. atom_matches (p ! j) (drop k s ! j)"
    using match_here_iff [of p "drop k s"] by auto
  have "atoms_overlap (drop k p ! j) (p ! j)" if j: "j < length p - k" for j
  proof -
    from j have "atom_matches (p ! (k + j)) (s ! (k + j))"
      using a by simp
    moreover from j l b have "atom_matches (p ! j) (s ! (k + j))"
      by (cases "k \<le> length s") auto
    ultimately show ?thesis
      using j by (simp add: atoms_overlap_common)
  qed
  then show ?thesis
    by (simp add: overlaps_at_def list_all_length)
qed

lemma unbordered_no_match:
  assumes "unbordered p" and "match_here p s \<noteq> None" and "0 < k" and "k < length p"
  shows "match_here p (drop k s) = None"
proof (rule ccontr)
  assume "match_here p (drop k s) \<noteq> None"
  with assms(2) have "overlaps_at p k" by (rule two_matches_overlap)
  moreover from assms(1,3,4) have "\<not> overlaps_at p k"
    by (simp add: unbordered_def list_all_iff)
  ultimately show False by simp
qed

lemma occurrences_from_skip:
  assumes "unbordered p" and "match_here p s = Some rest"
  shows "0 < k \<Longrightarrow> k \<le> length p \<Longrightarrow>
    occurrences_from p (i + k) (drop k s) = occurrences_from p (i + length p) rest"
proof (induction "length p - k" arbitrary: k)
  case 0
  then have "k = length p" by simp
  with match_here_drop [OF assms(2)] show ?case by simp
next
  case (Suc d)
  then have k: "k < length p" by simp
  from assms(2) have "length p \<le> length s"
    using match_here_length [OF assms(2)] by simp
  with k have "k < length s" by simp
  then have e: "drop k s = s ! k # drop (Suc k) s"
    by (simp add: Cons_nth_drop_Suc)
  from assms Suc.prems k have n: "match_here p (drop k s) = None"
    by (intro unbordered_no_match) simp_all
  from Suc.hyps(2) k have "d = length p - Suc k" by simp
  from Suc.hyps(1) [OF this] k
  have "occurrences_from p (i + Suc k) (drop (Suc k) s) = occurrences_from p (i + length p) rest"
    by simp
  with n e show ?case by simp
qed

lemma occurrences_from_match:
  assumes "unbordered p" and "p \<noteq> []" and "match_here p (c # cs) = Some rest"
  shows "occurrences_from p i (c # cs) = i # occurrences_from p (i + length p) rest"
proof -
  from assms(2) have "0 < (1::nat)" "1 \<le> length p"
    by (simp_all add: Suc_le_eq)
  from occurrences_from_skip [OF assms(1,3) this, of i] assms(3) show ?thesis
    by simp
qed

lemma occurrences_from_lower: "j \<in> set (occurrences_from p i s) \<Longrightarrow> i \<le> j"
  by (induction s arbitrary: i) (fastforce split: if_splits)+

lemma replace_each_copy:
  assumes "\<forall>j\<in>set js. i < j"
  shows "replace_each n repl js i (c # cs) = c # replace_each n repl js (Suc i) cs"
proof (cases js)
  case Nil
  then show ?thesis by simp
next
  case (Cons j js')
  with assms have "i < j" by simp
  then have "j - i = Suc (j - Suc i)" by simp
  with Cons show ?thesis by simp
qed

lemma spaced_Cons: "spaced n js \<Longrightarrow> \<forall>j\<in>set js. i + n \<le> j \<Longrightarrow> spaced n (i # js)"
  by (cases js) auto

lemma re_sub_atoms_replace_each:
  assumes "unbordered p" and "p \<noteq> []"
  shows "re_sub_atoms p repl s = replace_each (length p) repl (occurrences_from p i s) i s \<and>
         spaced (length p) (occurrences_from p i s)"
  using assms
proof (induction p repl s arbitrary: i rule: re_sub_atoms.induct)
  case (1 p repl)
  then show ?case by (cases p) auto
next
  case (2 p repl c cs)
  show ?case
  proof (cases "match_here p (c # cs)")
    case None
    have "i < j" if "j \<in> set (occurrences_from p (Suc i) cs)" for j
      using occurrences_from_lower [OF that] by simp
    then have "\<forall>j\<in>set (occurrences_from p (Suc i) cs). i < j"
      by blast
    then have "replace_each (length p) repl (occurrences_from p (Suc i) cs) i (c # cs) =
        c # replace_each (length p) repl (occurrences_from p (Suc i) cs) (Suc i) cs"
      by (rule replace_each_copy)
    with "2.IH"(1) [OF None "2.prems", of "Suc i"] None show ?thesis by simp
  next
    case (Some rest)
    from "2.prems" Some
    have o: "occurrences_from p i (c # cs) = i # occurrences_from p (i + length p) rest"
      by (rule occurrences_from_match)
    from match_here_drop [OF Some] have d: "drop (length p) (c # cs) = rest" by simp
    have "\<forall>j\<in>set (occurrences_from p (i + length p) rest). i + length p \<le> j"
      using occurrences_from_lower by blast
    with "2.IH"(3) [OF Some "2.prems"(2) "2.prems", of "i + length p"]
    have "spaced (length p) (i # occurrences_from p (i + length p) rest)"
      by (simp add: spaced_Cons)
    with "2.IH"(3) [OF Some "2.prems"(2) "2.prems", of "i + length p"] Some "2.prems"(2) o d
    show ?thesis by simp
  qed
qed

lemma re_sub_no_occurrence:
  "occurrences_from p i s = [] \<Longrightarrow> re_sub_atoms p repl s = s"
proof (induction s arbitrary: i)
  case Nil
  then show ?case by (auto split: if_splits)
next
  case (Cons c cs)
  from Cons.prems have "match_here p (c # cs) = None" and "occurrences_from p (Suc i) cs = []"
    by (auto split: if_splits)
  with Cons.IH [of "Suc i"] show ?case by simp
qed

lemma unbordered_patterns:
  "unbordered (re_parse ''perl-00-original.txt'')"
  "unbordered (re_parse ''perl-10-after-splines.txt'')"
  "unbordered (re_parse ''perl-11-after-arcfit.txt'')"
  by code_simp+

lemma Replace_without_occurrence:
  assumes "i < length doc" and "occurrences (re_parse pattern) (doc ! i) = []"
  shows "apply_op (Replace i pattern repl) doc = Inr doc"
  using assms re_sub_no_occurrence [of "re_parse pattern" 0 "doc ! i" repl]
  by (simp add: occurrences_def re_sub_def)

lemma Replace_in_changes:
  assumes "Replace i pattern repl \<in> set changes"
  shows "unbordered (re_parse pattern) \<and> re_parse pattern \<noteq> []"
proof -
  from assms have "pattern = ''perl-00-original.txt'' \<or> pattern = ''perl-10-after-splines.txt''
      \<or> pattern = ''perl-11-after-arcfit.txt''"
    by (auto simp: changes_def)
  then show ?thesis
    using unbordered_patterns by (auto simp: re_parse_def)
qed

lemma track_example:
  "track changes 4847 ''perl-00-originalXtxt'' = (4848, ''perl-00-initial-points.txt'')"
  by (simp add: changes_def re_sub_def re_parse_def newline_def)


section \<open>Properties of the script\<close>

text \<open>
  C1, as stated: an operation whose index is out of range (an \<open>Insert\<close> with an index
  greater than the length, a \<open>Replace\<close> with an index not below the length) fails and
  aborts the pass.  This is false for \<open>Insert\<close>: on a document of two lines,
  \<open>Insert 5\<close> appends the line, and the statements behind it run.
\<close>

theorem insert_beyond_end_counterexample:
  "length [''a'', ''b''] < 5 \<and>
   apply_op (Insert 5 ''x'') [''a'', ''b''] = Inr [''a'', ''b'', ''x''] \<and>
   apply_ops [Insert 5 ''x'', Replace 2 ''x'' ''y''] [''a'', ''b''] = Inr [''a'', ''b'', ''y'']"
  by (simp add: list_insert_def re_sub_def re_parse_def)

text \<open>
  C1, amended: a \<open>Replace\<close> raises \<^verbatim>\<open>IndexError\<close> exactly when its index is not
  below the length of the document, and then the whole pass ends with that exception,
  whatever statements stand behind it; an \<open>Insert\<close> whose index is greater than the
  length does not fail and appends its line at the end.
\<close>

theorem out_of_range_index:
  "(apply_op (Replace i pattern repl) doc = Inl IndexError \<longleftrightarrow> length doc \<le> i) \<and>
   (length doc \<le> i \<and> apply_ops before (split_lines content) = Inr doc \<longrightarrow>
      apply_edits (before @ Replace i pattern repl # after) content = Inl IndexError) \<and>
   (length doc < j \<longrightarrow> apply_op (Insert j c) doc = Inr (doc @ [c]))"
proof -
  have a: "apply_op (Replace i pattern repl) doc = Inl IndexError \<longleftrightarrow> length doc \<le> i"
    by (rule Replace_fails_iff)
  have b: "apply_edits (before @ Replace i pattern repl # after) content = Inl IndexError"
    if "length doc \<le> i" and "apply_ops before (split_lines content) = Inr doc"
    using that by (simp add: apply_edits_def apply_ops_append)
  have c: "length doc < j \<longrightarrow> apply_op (Insert j c) doc = Inr (doc @ [c])"
    by (simp add: list_insert_beyond)
  from a b c show ?thesis by blast
qed

theorem out_of_range_index_witness:
  "apply_op (Replace 1 ''a'' ''b'') [''a''] = Inl IndexError \<and>
   apply_edits [Insert 0 ''z'', Replace 2 ''a'' ''b'', Insert 0 ''y''] ''a'' = Inl IndexError \<and>
   apply_op (Insert 5 ''x'') [''a''] = Inr [''a'', ''x'']"
proof -
  have d: "apply_ops [Insert 0 ''z''] (split_lines ''a'') = Inr [''z'', ''a'']"
    by (simp add: list_insert_def newline_def)
  from out_of_range_index [of 1 "''a''" "''b''" "[''a'']" "[]" "''a''" "[]" 5 "''x''"]
  have "apply_op (Replace 1 ''a'' ''b'') [''a''] = Inl IndexError"
    and "apply_op (Insert 5 ''x'') [''a''] = Inr [''a'', ''x'']"
    by simp_all
  moreover from out_of_range_index [of 2 "''a''" "''b''" "[''z'', ''a'']" "[Insert 0 ''z'']" "''a''"
      "[Insert 0 ''y'']"] d
  have "apply_edits [Insert 0 ''z'', Replace 2 ''a'' ''b'', Insert 0 ''y''] ''a'' = Inl IndexError"
    by simp
  ultimately show ?thesis by simp
qed

text \<open>
  C2: for every input with at least 5063 lines, \<^verbatim>\<open>apply_changes\<close> returns a string
  whose line count is the line count of the input plus 42, and 42 is the number of
  \<^verbatim>\<open>insert\<close> statements of the script.
\<close>

theorem apply_changes_line_count:
  assumes "5063 \<le> length (split_lines content)"
  shows "\<exists>out. apply_changes content = Inr out \<and>
           length (split_lines out) = length (split_lines content) + 42 \<and>
           count_inserts changes = 42"
proof -
  from assms obtain out where out: "apply_changes content = Inr out"
    using apply_changes_succeeds by blast
  then obtain ls' where r: "apply_ops changes (split_lines content) = Inr ls'"
    and j: "out = join_lines ls'"
    by (auto simp: apply_changes_lines)
  from r have "split_lines out = ls'"
    unfolding j by (rule split_lines_result)
  with apply_ops_length [OF r] out show ?thesis
    by (simp add: count_inserts_changes)
qed

theorem apply_changes_line_count_witness:
  "\<exists>out. apply_changes (replicate 5062 newline) = Inr out \<and> length (split_lines out) = 5105"
  using apply_changes_line_count [of "replicate 5062 newline"] by auto

text \<open>
  C3: a \<open>Replace\<close> whose pattern does not occur in its line leaves the line as it is;
  in particular each \<^verbatim>\<open>re.sub\<close> of the script leaves its line unchanged when the
  filename it searches for is absent.  The first half holds for matches of the pattern
  (\<open>Replace_without_occurrence\<close>).  The second half fails on the code: the dot of
  \<^verbatim>\<open>perl-00-original.txt\<close> is not escaped and matches any character, so in a file of
  5063 lines whose line 4847 is \<^verbatim>\<open>perl-00-originalXtxt\<close>, which does not contain the
  filename, the script rewrites that line.
\<close>

theorem replace_rewrites_line_without_filename:
  "\<not> contains_literal ''perl-00-original.txt'' ''perl-00-originalXtxt'' \<and>
   split_lines (replicate 4847 newline @ ''perl-00-originalXtxt'' @ newline # replicate 214 newline)
     ! 4847 = ''perl-00-originalXtxt'' \<and>
   (\<exists>out. apply_changes
       (replicate 4847 newline @ ''perl-00-originalXtxt'' @ newline # replicate 214 newline) =
       Inr out \<and>
     split_lines out ! 4848 = ''perl-00-initial-points.txt'')"
proof -
  let ?line = "''perl-00-originalXtxt''"
  let ?content = "replicate 4847 newline @ ?line @ newline # replicate 214 newline"
  have a: "\<not> contains_literal ''perl-00-original.txt'' ?line"
    by code_simp
  have "split_lines (?line @ newline # replicate 214 newline) =
      ?line # split_lines (replicate 214 newline)"
    by (rule split_lines_append_newline) (simp add: newline_def)
  then have s: "split_lines ?content =
      replicate 4847 [] @ ?line # split_lines (replicate 214 newline)"
    by (simp only: split_lines_replicate)
  have n: "split_lines ?content ! 4847 = ?line"
    unfolding s by (simp add: nth_append)
  have p: "4847 < length (split_lines ?content)"
    unfolding s by simp
  have "5063 \<le> length (split_lines ?content)"
    unfolding s by simp
  then obtain out where out: "apply_changes ?content = Inr out"
    using apply_changes_succeeds by blast
  then obtain ls' where r: "apply_ops changes (split_lines ?content) = Inr ls'"
    and j: "out = join_lines ls'"
    by (auto simp: apply_changes_lines)
  from r have "split_lines out = ls'"
    unfolding j by (rule split_lines_result)
  moreover from track_correct [OF r p] have "ls' ! 4848 = ''perl-00-initial-points.txt''"
    unfolding n track_example by simp
  ultimately have "split_lines out ! 4848 = ''perl-00-initial-points.txt''"
    by simp
  with a n out show ?thesis by blast
qed

text \<open>
  C4: an insertion at an index \<open>i\<close> that is at most the length \<open>N\<close> of the document
  gives a document of length \<open>N + 1\<close> with the new line at position \<open>i\<close>; every
  original line at a position below \<open>i\<close> stays, every original line at a position
  \<open>p \<ge> i\<close> moves to \<open>p + 1\<close>.
\<close>

theorem insert_shifts_lines:
  assumes "i \<le> length doc"
  shows "\<exists>doc'. apply_op (Insert i c) doc = Inr doc' \<and>
           length doc' = length doc + 1 \<and>
           doc' ! i = c \<and>
           (\<forall>p<i. doc' ! p = doc ! p) \<and>
           (\<forall>p. i \<le> p \<and> p < length doc \<longrightarrow> doc' ! (p + 1) = doc ! p)"
  using assms
  by (simp add: length_list_insert list_insert_nth_at list_insert_nth_below
      list_insert_nth_above)

theorem insert_shifts_lines_witness:
  "apply_op (Insert 1 ''x'') [''a'', ''b'', ''c''] = Inr [''a'', ''x'', ''b'', ''c'']"
  using insert_shifts_lines [of 1 "[''a'', ''b'', ''c'']" "''x''"]
  by (simp add: list_insert_def)

text \<open>
  C5: for every input with at least 5063 lines, every line whose original position is
  none of 4847, 5057 and 5062 stands in the output unchanged, at its original position
  plus the number of insertions made at or before its position: the insertions whose
  index is at most the position the line has when they run, which are those whose
  insertion point in the original document is at most the original position of the line.
\<close>

theorem untouched_lines_shifted:
  assumes "5063 \<le> length (split_lines content)"
    and "p < length (split_lines content)"
    and "p \<notin> {4847, 5057, 5062}"
  shows "\<exists>out. apply_changes content = Inr out \<and>
           split_lines out ! (p + inserts_before changes p) = split_lines content ! p \<and>
           inserts_before changes p =
             length (filter (\<lambda>t. t \<le> p) (insert_points changes 0))"
proof -
  from assms(1) obtain out where out: "apply_changes content = Inr out"
    using apply_changes_succeeds by blast
  then obtain ls' where r: "apply_ops changes (split_lines content) = Inr ls'"
    and j: "out = join_lines ls'"
    by (auto simp: apply_changes_lines)
  from r have s: "split_lines out = ls'"
    unfolding j by (rule split_lines_result)
  from assms(3) have "\<not> targeted changes p"
    by (simp add: targeted_changes)
  then have "snd (track changes p (split_lines content ! p)) = split_lines content ! p"
    by (rule track_snd)
  with track_correct [OF r assms(2)] have "ls' ! (p + inserts_before changes p) = split_lines content ! p"
    by (simp add: track_fst)
  with out s inserts_before_changes [of p] show ?thesis by simp
qed

theorem untouched_lines_shifted_witness:
  "\<exists>out. apply_changes (replicate 4990 newline @ ''x'' @ newline # replicate 71 newline) = Inr out \<and>
     split_lines out ! 4998 = ''x''"
proof -
  let ?content = "replicate 4990 newline @ ''x'' @ newline # replicate 71 newline"
  have "split_lines (''x'' @ newline # replicate 71 newline) =
      ''x'' # split_lines (replicate 71 newline)"
    by (rule split_lines_append_newline) (simp add: newline_def)
  then have s: "split_lines ?content =
      replicate 4990 [] @ ''x'' # split_lines (replicate 71 newline)"
    by (simp only: split_lines_replicate)
  have l: "5063 \<le> length (split_lines ?content)"
    unfolding s by simp
  have p: "4990 < length (split_lines ?content)"
    unfolding s by simp
  have n: "split_lines ?content ! 4990 = ''x''"
    unfolding s by (simp add: nth_append)
  have "(4990::nat) \<notin> {4847, 5057, 5062}" by simp
  from untouched_lines_shifted [OF l p this] n show ?thesis
    by (auto simp: inserts_before_example)
qed

text \<open>
  C6: splitting a string on the newline character and joining the unmodified lines with
  the newline character gives the string back; so running no statement at all between
  the split and the join returns the input.
\<close>

theorem empty_edit_list_is_identity:
  "join_lines (split_lines content) = content \<and> apply_edits [] content = Inr content"
  by (simp add: apply_edits_def join_split)

text \<open>
  C7: \<^verbatim>\<open>apply_changes\<close> is not idempotent: whenever it succeeds on an input, it
  also succeeds on its own output and returns a different string (42 lines longer).
\<close>

theorem apply_changes_not_idempotent:
  assumes "apply_changes content = Inr out"
  shows "\<exists>out'. apply_changes out = Inr out' \<and> out' \<noteq> out"
proof -
  from assms have n: "5063 \<le> length (split_lines content)"
    using apply_changes_succeeds by blast
  from assms obtain ls' where r: "apply_ops changes (split_lines content) = Inr ls'"
    and j: "out = join_lines ls'"
    by (auto simp: apply_changes_lines)
  from r have s: "split_lines out = ls'"
    unfolding j by (rule split_lines_result)
  with apply_ops_length [OF r] n have n': "5063 \<le> length (split_lines out)"
    by simp
  then obtain out' where o: "apply_changes out = Inr out'"
    using apply_changes_succeeds by blast
  then obtain ls'' where r': "apply_ops changes (split_lines out) = Inr ls''"
    and j': "out' = join_lines ls''"
    by (auto simp: apply_changes_lines)
  from r' have "split_lines out' = ls''"
    unfolding j' by (rule split_lines_result)
  with apply_ops_length [OF r'] have "length (split_lines out') = length (split_lines out) + 42"
    by (simp add: count_inserts_changes)
  then have "out' \<noteq> out" by auto
  with o show ?thesis by blast
qed

theorem apply_changes_not_idempotent_witness:
  "\<exists>out out'. apply_changes (replicate 5062 newline) = Inr out \<and>
     apply_changes out = Inr out' \<and> out' \<noteq> out"
proof -
  obtain out where o: "apply_changes (replicate 5062 newline) = Inr out"
    using apply_changes_succeeds [of "replicate 5062 newline"] by auto
  from apply_changes_not_idempotent [OF o] o show ?thesis by blast
qed

text \<open>
  C8: a run of the script leaves the file it reads, \<^verbatim>\<open>processGPX\<close>, as it was, and
  changes no path other than \<^verbatim>\<open>processGPX_new\<close>, whether it ends with an exception
  or not.  The content passed to \<^verbatim>\<open>apply_changes\<close> is a value; the function returns
  a new string.
\<close>

theorem input_file_untouched:
  "snd (main fs) ''processGPX'' = fs ''processGPX'' \<and>
   (\<forall>path. path \<noteq> ''processGPX_new'' \<longrightarrow> snd (main fs) path = fs path)"
  by (simp add: main_def split: option.splits sum.splits)

theorem input_file_untouched_witness:
  "fst (main [''processGPX'' \<mapsto> replicate 5062 newline]) = None \<and>
   snd (main [''processGPX'' \<mapsto> replicate 5062 newline]) ''processGPX'' =
     Some (replicate 5062 newline) \<and>
   snd (main [''processGPX'' \<mapsto> replicate 5062 newline]) ''notes.txt'' = None"
proof -
  obtain out where o: "apply_changes (replicate 5062 newline) = Inr out"
    using apply_changes_succeeds [of "replicate 5062 newline"] by auto
  then have "fst (main [''processGPX'' \<mapsto> replicate 5062 newline]) = None"
    by (simp add: main_def)
  with input_file_untouched [of "[''processGPX'' \<mapsto> replicate 5062 newline]"]
  show ?thesis by simp
qed

text \<open>
  C9: \<^verbatim>\<open>apply_changes\<close> raises \<^verbatim>\<open>IndexError\<close> exactly when the input has fewer
  than 5063 lines.  An \<open>Insert\<close> never fails, and beyond the end of the list it appends;
  all statements but three are insertions; the three \<open>Replace\<close> statements succeed, at
  the point where they run, exactly when the input has at least 4848, 5058 and 5063
  lines.
\<close>

theorem index_error_iff:
  "(apply_changes content = Inl IndexError \<longleftrightarrow> length (split_lines content) < 5063) \<and>
   (\<exists>doc'. apply_op (Insert i c) doc = Inr doc') \<and>
   (length doc < i \<longrightarrow> apply_op (Insert i c) doc = Inr (doc @ [c])) \<and>
   length changes = count_inserts changes + 3 \<and>
   (apply_ops (take 1 changes) lines = Inr doc1 \<longrightarrow>
      ((\<exists>doc'. apply_op (changes ! 1) doc1 = Inr doc') \<longleftrightarrow> 4848 \<le> length lines)) \<and>
   (apply_ops (take 12 changes) lines = Inr doc2 \<longrightarrow>
      ((\<exists>doc'. apply_op (changes ! 12) doc2 = Inr doc') \<longleftrightarrow> 5058 \<le> length lines)) \<and>
   (apply_ops (take 14 changes) lines = Inr doc3 \<longrightarrow>
      ((\<exists>doc'. apply_op (changes ! 14) doc3 = Inr doc') \<longleftrightarrow> 5063 \<le> length lines))"
proof -
  have a: "apply_changes content = Inl IndexError \<longleftrightarrow> length (split_lines content) < 5063"
    by (rule apply_changes_fails_iff)
  have b: "\<exists>doc'. apply_op (Insert i c) doc = Inr doc'"
    by simp
  have c: "length doc < i \<longrightarrow> apply_op (Insert i c) doc = Inr (doc @ [c])"
    by (simp add: list_insert_beyond)
  have d: "length changes = count_inserts changes + 3"
    by (simp add: length_changes count_inserts_changes)
  have e1: "(\<exists>doc'. apply_op (changes ! 1) doc1 = Inr doc') \<longleftrightarrow> 4848 \<le> length lines"
    if "apply_ops (take 1 changes) lines = Inr doc1"
    using apply_ops_length [OF that]
    by (auto simp: nth_changes Replace_succeeds_iff count_inserts_prefixes)
  have e2: "(\<exists>doc'. apply_op (changes ! 12) doc2 = Inr doc') \<longleftrightarrow> 5058 \<le> length lines"
    if "apply_ops (take 12 changes) lines = Inr doc2"
    using apply_ops_length [OF that]
    by (auto simp: nth_changes Replace_succeeds_iff count_inserts_prefixes)
  have e3: "(\<exists>doc'. apply_op (changes ! 14) doc3 = Inr doc') \<longleftrightarrow> 5063 \<le> length lines"
    if "apply_ops (take 14 changes) lines = Inr doc3"
    using apply_ops_length [OF that]
    by (auto simp: nth_changes Replace_succeeds_iff count_inserts_prefixes)
  from a b c d e1 e2 e3 show ?thesis by blast
qed

theorem index_error_iff_witness:
  "apply_changes (replicate 5061 newline) = Inl IndexError \<and>
   apply_changes (replicate 5062 newline) \<noteq> Inl IndexError \<and>
   apply_op (Insert 7 ''x'') [''a''] = Inr [''a'', ''x'']"
  using index_error_iff [of "replicate 5061 newline" 7 "''x''" "[''a'']"]
    index_error_iff [of "replicate 5062 newline"]
  by simp

text \<open>
  C10: a \<open>Replace\<close> of the script substitutes every occurrence of its pattern in the
  line it addresses, not only the first: the new line is the old one with each of the
  positions where the pattern matches replaced, and these occurrences never overlap.
\<close>

theorem replace_substitutes_every_occurrence:
  assumes "Replace i pattern repl \<in> set changes" and "i < length doc"
  shows "\<exists>doc'. apply_op (Replace i pattern repl) doc = Inr doc' \<and>
           doc' ! i = replace_each (length pattern) repl
                        (occurrences (re_parse pattern) (doc ! i)) 0 (doc ! i) \<and>
           spaced (length pattern) (occurrences (re_parse pattern) (doc ! i))"
proof -
  from assms(1) have u: "unbordered (re_parse pattern)" and n: "re_parse pattern \<noteq> []"
    using Replace_in_changes by blast+
  have l: "length (re_parse pattern) = length pattern"
    by (simp add: re_parse_def)
  from re_sub_atoms_replace_each [OF u n, of repl "doc ! i" 0] assms(2) show ?thesis
    by (simp add: l occurrences_def re_sub_def)
qed

theorem replace_substitutes_every_occurrence_witness:
  "occurrences (re_parse ''perl-00-original.txt'')
     ''perl-00-original.txt, perl-00-original.txt'' = [0, 22] \<and>
   (\<exists>doc'. apply_op (Replace 4848 ''perl-00-original.txt'' ''perl-00-initial-points.txt'')
       (replicate 4848 [] @ [''perl-00-original.txt, perl-00-original.txt'']) = Inr doc' \<and>
     doc' ! 4848 = ''perl-00-initial-points.txt, perl-00-initial-points.txt'')"
proof -
  let ?line = "''perl-00-original.txt, perl-00-original.txt''"
  let ?doc = "replicate 4848 [] @ [?line]"
  have o: "occurrences (re_parse ''perl-00-original.txt'') ?line = [0, 22]"
    by code_simp
  have m: "Replace 4848 ''perl-00-original.txt'' ''perl-00-initial-points.txt'' \<in> set changes"
    by (simp add: changes_def)
  have i: "4848 < length ?doc" by simp
  have d: "?doc ! 4848 = ?line" by (simp add: nth_append)
  from replace_substitutes_every_occurrence [OF m i] show ?thesis
    unfolding d o by simp
qed

end
